theory Spec2Isabelle
  imports Main "HOL-Library.Char_ord" "HOL-Library.List_Lexorder"
begin

section \<open>Strings and characters\<close>

text \<open>
  The scripts \<^verbatim>\<open>i18n-sync.py\<close> and \<^verbatim>\<open>i18n-extract.py\<close> work on Python
  \<^verbatim>\<open>str\<close> values, which are sequences of code points. A \<^typ>\<open>char\<close> stands for
  the code point with the same number, so a \<^typ>\<open>string\<close> is a Python string whose code
  points are below 256; \<^const>\<open>length\<close> is Python's \<^verbatim>\<open>len\<close>. The
  character classes below are the ones of Python on that range.
\<close>

definition cp :: "char \<Rightarrow> nat" where
  "cp c = of_char c"

text \<open>The regular-expression classes \<^verbatim>\<open>[a-z]\<close>, \<^verbatim>\<open>[A-Z]\<close>, \<^verbatim>\<open>[a-z0-9]\<close>
  and \<^verbatim>\<open>[a-z0-9_]\<close>.\<close>

definition re_az :: "char \<Rightarrow> bool" where
  "re_az c \<longleftrightarrow> 97 \<le> cp c \<and> cp c \<le> 122"

definition re_AZ :: "char \<Rightarrow> bool" where
  "re_AZ c \<longleftrightarrow> 65 \<le> cp c \<and> cp c \<le> 90"

definition re_09 :: "char \<Rightarrow> bool" where
  "re_09 c \<longleftrightarrow> 48 \<le> cp c \<and> cp c \<le> 57"

definition re_az09 :: "char \<Rightarrow> bool" where
  "re_az09 c \<longleftrightarrow> re_az c \<or> re_09 c"

definition re_az09u :: "char \<Rightarrow> bool" where
  "re_az09u c \<longleftrightarrow> re_az c \<or> re_09 c \<or> c = CHR ''_''"

text \<open>\<^verbatim>\<open>.\<close> without DOTALL: any character but the newline.\<close>

definition re_dot :: "char \<Rightarrow> bool" where
  "re_dot c \<longleftrightarrow> c \<noteq> CHR 0x0A"

text \<open>\<^verbatim>\<open>str.isspace\<close>: the control characters 9 to 13 and 28 to 31, the space,
  NEL (0x85) and the no-break space (0xA0).\<close>

definition isspace :: "char \<Rightarrow> bool" where
  "isspace c \<longleftrightarrow>
     (9 \<le> cp c \<and> cp c \<le> 13) \<or> (28 \<le> cp c \<and> cp c \<le> 31) \<or> cp c = 32 \<or> cp c = 133 \<or> cp c = 160"

text \<open>\<^verbatim>\<open>str.isupper\<close> on one character: A to Z, and the capital letters of the
  Latin-1 supplement (0xC0 to 0xDE without the multiplication sign 0xD7).\<close>

definition isupper :: "char \<Rightarrow> bool" where
  "isupper c \<longleftrightarrow> re_AZ c \<or> (192 \<le> cp c \<and> cp c \<le> 222 \<and> cp c \<noteq> 215)"

text \<open>\<^verbatim>\<open>str.lower\<close>: every capital letter has its small letter 32 code points
  above it; the other characters stay.\<close>

definition lower_char :: "char \<Rightarrow> char" where
  "lower_char c = (if isupper c then char_of (cp c + 32) else c)"

definition lower :: "string \<Rightarrow> string" where
  "lower s = map lower_char s"


text \<open>\<^verbatim>\<open>s.strip()\<close> and \<^verbatim>\<open>s.strip("_")\<close>.\<close>

definition strip_by :: "(char \<Rightarrow> bool) \<Rightarrow> string \<Rightarrow> string" where
  "strip_by p s = rev (dropWhile p (rev (dropWhile p s)))"

definition strip :: "string \<Rightarrow> string" where
  "strip s = strip_by isspace s"

text \<open>\<^verbatim>\<open>sub in s\<close> on strings: \<open>sub\<close> occurs in \<open>s\<close> as a contiguous block.\<close>

fun str_in :: "string \<Rightarrow> string \<Rightarrow> bool" where
  "str_in sub [] = (sub = [])"
| "str_in sub (c # s) = (take (length sub) (c # s) = sub \<or> str_in sub s)"

section \<open>Translation tables\<close>

text \<open>
  A table is a Python \<^verbatim>\<open>dict\<close> from keys to values, which keeps the order in which
  its keys were inserted: an association list whose keys are distinct.
\<close>

type_synonym table = "(string \<times> string) list"

definition keys :: "('k \<times> 'v) list \<Rightarrow> 'k list" where
  "keys d = map fst d"

definition wf_table :: "('k \<times> 'v) list \<Rightarrow> bool" where
  "wf_table d \<longleftrightarrow> distinct (keys d)"

text \<open>\<^verbatim>\<open>d[k] = v\<close>: an existing key keeps its place, a new key goes to the end.\<close>

fun dict_set :: "('k \<times> 'v) list \<Rightarrow> 'k \<Rightarrow> 'v \<Rightarrow> ('k \<times> 'v) list" where
  "dict_set [] k v = [(k, v)]"
| "dict_set ((k', v') # d) k v =
     (if k' = k then (k, v) # d else (k', v') # dict_set d k v)"

text \<open>\<^verbatim>\<open>d[k]\<close> for a key taken from \<^verbatim>\<open>d.keys()\<close>.\<close>

definition dict_get :: "('k \<times> 'v) list \<Rightarrow> 'k \<Rightarrow> 'v" where
  "dict_get d k = the (map_of d k)"

definition schema_key :: string where
  "schema_key = ''$schema''"

section \<open>Naming convention (i18n-sync.py)\<close>

text \<open>
  \<^verbatim>\<open>validate_snake_case\<close>: \<^verbatim>\<open>bool(re.match(r"^[a-z][a-z0-9_]*$", key))\<close>.
  After the first letter the star takes the longest run of \<^verbatim>\<open>[a-z0-9_]\<close>; a shorter
  run would leave one of these characters next, where \<^verbatim>\<open>$\<close> cannot match. Python's
  \<^verbatim>\<open>$\<close> matches at the end of the string and also just before a newline that ends
  the string.
\<close>

definition validate_snake_case :: "string \<Rightarrow> bool" where
  "validate_snake_case key =
     (case key of
        [] \<Rightarrow> False
      | c # cs \<Rightarrow> re_az c \<and>
          (let rest = dropWhile re_az09u cs in rest = [] \<or> rest = [CHR 0x0A]))"

text \<open>
  \<^verbatim>\<open>re.sub("(.)([A-Z][a-z]+)", r"\1_\2", key)\<close>: the string is scanned from the
  left; where a character other than newline is followed by a capital and at least one
  small letter, an underscore goes between the character and the capital, the whole run
  of small letters is consumed and the scan goes on behind it.
\<close>

function sub_cap_word :: "string \<Rightarrow> string" where
  "sub_cap_word [] = []"
| "sub_cap_word [c] = [c]"
| "sub_cap_word [c, u] = [c, u]"
| "sub_cap_word (c # u # l # s) =
     (if re_dot c \<and> re_AZ u \<and> re_az l
      then c # CHR ''_'' # u # l # takeWhile re_az s @ sub_cap_word (dropWhile re_az s)
      else c # sub_cap_word (u # l # s))"
  by pat_completeness auto
termination
  by (relation "measure length") (auto simp: length_dropWhile_le less_Suc_eq_le le_SucI)

text \<open>
  \<^verbatim>\<open>re.sub("([a-z0-9])([A-Z])", r"\1_\2", s1)\<close>: an underscore between a small
  letter or digit and the capital that follows it; the scan goes on behind the capital.
\<close>

fun sub_low_cap :: "string \<Rightarrow> string" where
  "sub_low_cap (c # u # s) =
     (if re_az09 c \<and> re_AZ u then c # CHR ''_'' # u # sub_low_cap s
      else c # sub_low_cap (u # s))"
| "sub_low_cap s = s"

text \<open>\<^verbatim>\<open>re.sub("_+", "_", s2)\<close>: each run of underscores becomes one underscore.\<close>

function sub_underscores :: "string \<Rightarrow> string" where
  "sub_underscores [] = []"
| "sub_underscores (c # s) =
     (if c = CHR ''_'' then CHR ''_'' # sub_underscores (dropWhile (\<lambda>x. x = CHR ''_'') s)
      else c # sub_underscores s)"
  by pat_completeness auto
termination
  by (relation "measure length") (auto simp: length_dropWhile_le less_Suc_eq_le)

definition suggest_snake_case :: "string \<Rightarrow> string" where
  "suggest_snake_case key =
     (let s1 = sub_cap_word key;
          s2 = lower (sub_low_cap s1);
          s3 = sub_underscores s2
      in strip_by (\<lambda>c. c = CHR ''_'') s3)"

text \<open>\<^verbatim>\<open>find_naming_violations\<close>: the keys other than \<^verbatim>\<open>$schema\<close> that fail the
  convention, in table order, each with its suggestion.\<close>

fun find_naming_violations :: "table \<Rightarrow> (string \<times> string) list" where
  "find_naming_violations [] = []"
| "find_naming_violations ((key, value) # data) =
     (if key = schema_key then find_naming_violations data
      else if \<not> validate_snake_case key
           then (key, suggest_snake_case key) # find_naming_violations data
      else find_naming_violations data)"

section \<open>Reconciliation (i18n-sync.py)\<close>

text \<open>
  \<^verbatim>\<open>sort_keys_alphabetically\<close>: a new dict that receives \<^verbatim>\<open>$schema\<close> first, when
  the table has it, and then the other keys in the order of \<^verbatim>\<open>sorted\<close>, which
  compares strings code point by code point.
\<close>

definition sort_keys_alphabetically :: "table \<Rightarrow> table" where
  "sort_keys_alphabetically data =
     (let sorted_data =
            (if schema_key \<in> set (keys data)
             then dict_set [] schema_key (dict_get data schema_key) else [])
      in fold (\<lambda>key acc. dict_set acc key (dict_get data key))
           (sort (filter (\<lambda>k. k \<noteq> schema_key) (keys data))) sorted_data)"

text \<open>The two parts of its result: the entry of \<^verbatim>\<open>$schema\<close>, and the other keys
  in sorted order.\<close>

definition schema_entry :: "table \<Rightarrow> table" where
  "schema_entry data =
     (if schema_key \<in> set (keys data) then [(schema_key, dict_get data schema_key)] else [])"

definition other_keys :: "table \<Rightarrow> string list" where
  "other_keys data = sort (filter (\<lambda>k. k \<noteq> schema_key) (keys data))"

text \<open>
  \<^verbatim>\<open>find_missing_keys\<close>: the two set differences of the key sets without
  \<^verbatim>\<open>$schema\<close>. The first component is \<^verbatim>\<open>missing_in_en\<close> (keys of the first table
  that the second lacks), the second is \<^verbatim>\<open>missing_in_sv\<close>.
\<close>

definition find_missing_keys :: "table \<Rightarrow> table \<Rightarrow> string set \<times> string set" where
  "find_missing_keys sv_data en_data =
     (let sv_keys = set (filter (\<lambda>k. k \<noteq> schema_key) (keys sv_data));
          en_keys = set (filter (\<lambda>k. k \<noteq> schema_key) (keys en_data));
          missing_in_en = sv_keys - en_keys;
          missing_in_sv = en_keys - sv_keys
      in (missing_in_en, missing_in_sv))"

text \<open>
  The loops of \<^verbatim>\<open>main\<close> that add the missing keys
  (\<^verbatim>\<open>for key in missing_in_en: en_data[key] = "[TODO: translate]"\<close> and its twin for
  \<^verbatim>\<open>sv_data\<close>). A Python set is iterated in an order of its own, so the loop takes
  the sequence \<open>ks\<close> in which the set of missing keys is visited.
\<close>

definition merge_missing :: "string list \<Rightarrow> table \<Rightarrow> string \<Rightarrow> table" where
  "merge_missing ks target placeholder = fold (\<lambda>key d. dict_set d key placeholder) ks target"

text \<open>
  \<^verbatim>\<open>find_duplicate_values\<close>. \<^verbatim>\<open>value_to_keys\<close> is a \<^verbatim>\<open>defaultdict(list)\<close>:
  appending under a value that has no entry yet creates the entry at the end.
\<close>

fun dd_append :: "('a \<times> 'b list) list \<Rightarrow> 'a \<Rightarrow> 'b \<Rightarrow> ('a \<times> 'b list) list" where
  "dd_append [] value key = [(value, [key])]"
| "dd_append ((v, ks) # d) value key =
     (if v = value then (v, ks @ [key]) # d else (v, ks) # dd_append d value key)"

fun group_values :: "table \<Rightarrow> (string \<times> string list) list \<Rightarrow> (string \<times> string list) list" where
  "group_values [] value_to_keys = value_to_keys"
| "group_values ((key, value) # items) value_to_keys =
     (if key = schema_key then group_values items value_to_keys
      else if value = [] \<or> strip value = [] then group_values items value_to_keys
      else if length (strip value) \<le> 1 then group_values items value_to_keys
      else if str_in ''[TODO'' value \<or> str_in ''TODO'' value then group_values items value_to_keys
      else group_values items (dd_append value_to_keys value key))"

definition find_duplicate_values :: "table \<Rightarrow> (string \<times> string list) list" where
  "find_duplicate_values data =
     filter (\<lambda>(value, ks). length ks > 1) (group_values data [])"

text \<open>For the statements about the groups: the values that the loop skips, the keys
  other than \<^verbatim>\<open>$schema\<close> that have a given value, and the group recorded for a
  value.\<close>

definition skipped :: "string \<Rightarrow> bool" where
  "skipped v \<longleftrightarrow>
     v = [] \<or> strip v = [] \<or> length (strip v) \<le> 1 \<or> str_in ''[TODO'' v \<or> str_in ''TODO'' v"

definition keys_with :: "table \<Rightarrow> string \<Rightarrow> string list" where
  "keys_with data v = map fst (filter (\<lambda>(k, v'). k \<noteq> schema_key \<and> v' = v) data)"

definition group_of :: "('a \<times> 'b list) list \<Rightarrow> 'a \<Rightarrow> 'b list" where
  "group_of d v = (case map_of d v of None \<Rightarrow> [] | Some ks \<Rightarrow> ks)"

text \<open>
  The head of \<^verbatim>\<open>main\<close> of \<^verbatim>\<open>i18n-sync.py\<close>, up to the exit of the report mode.
  The two arguments \<open>sv_loaded\<close> and \<open>en_loaded\<close> are the results of
  \<^verbatim>\<open>load_json\<close>: \<open>None\<close> for a file that is missing or is not JSON. The result
  is the status the process exits with, or \<open>None\<close> when \<^verbatim>\<open>main\<close> goes on to apply
  fixes.
\<close>

text \<open>The command-line flags that decide the mode; \<open>fix_flag\<close> is \<^verbatim>\<open>--fix\<close>.\<close>

record flags =
  check :: bool
  add_keys :: bool
  fix_flag :: bool
  auto_fix :: bool

definition main_report :: "flags \<Rightarrow> table option \<Rightarrow> table option \<Rightarrow> nat option" where
  "main_report fl sv_loaded en_loaded =
     (case (sv_loaded, en_loaded) of
        (Some sv_data, Some en_data) \<Rightarrow>
          (let (missing_in_en, missing_in_sv) = find_missing_keys sv_data en_data;
               sv_violations = find_naming_violations sv_data;
               en_violations = find_naming_violations en_data;
               sv_duplicates = find_duplicate_values sv_data;
               en_duplicates = find_duplicate_values en_data;
               has_issues = (missing_in_en \<noteq> {} \<or> missing_in_sv \<noteq> {} \<or>
                             sv_violations \<noteq> [] \<or> en_violations \<noteq> []);
               has_warnings = (sv_duplicates \<noteq> [] \<or> en_duplicates \<noteq> [])
           in if check fl \<or> \<not> (add_keys fl \<or> fix_flag fl \<or> auto_fix fl)
              then (if \<not> has_issues \<and> \<not> has_warnings then Some 0
                    else Some (if has_issues then 1 else 0))
              else None)
      | _ \<Rightarrow> Some 2)"

section \<open>Usage scan (i18n-extract.py)\<close>















text \<open>
  \<^verbatim>\<open>main\<close> of \<^verbatim>\<open>i18n-extract.py\<close> is not embedded. Its first \<^verbatim>\<open>click.echo\<close>
  (lines 131 and 132 of the file) has a line break inside a single-quoted string
  literal, which Python refuses to compile, so no exit status of that script is
  computed by its \<^verbatim>\<open>main\<close>.
\<close>

section \<open>Saving a table (i18n-sync.py)\<close>

text \<open>
  The files of the messages directory: a file name is mapped to the text of the file,
  and \<open>None\<close> means that no file has that name. A path is its final component; all the
  paths of \<^verbatim>\<open>save_json\<close> are in one directory. \<^verbatim>\<open>Path.rename\<close> is the one of
  POSIX, which replaces a file that is already at the target. \<^verbatim>\<open>exists\<close>,
  \<^verbatim>\<open>rename\<close> and \<^verbatim>\<open>unlink\<close> themselves do not fail here; the step that may fail
  is the write.
\<close>

type_synonym files = "string \<Rightarrow> string option"

definition path_exists :: "files \<Rightarrow> string \<Rightarrow> bool" where
  "path_exists fs p \<longleftrightarrow> fs p \<noteq> None"

definition rename :: "files \<Rightarrow> string \<Rightarrow> string \<Rightarrow> files" where
  "rename fs src dst = (if src = dst then fs else (fs(dst := fs src))(src := None))"

definition unlink :: "files \<Rightarrow> string \<Rightarrow> files" where
  "unlink fs p = fs(p := None)"

text \<open>
  \<^verbatim>\<open>PurePath.suffix\<close>: the name from its last dot on, when that dot is neither the
  first nor the last character; \<^verbatim>\<open>with_suffix\<close> replaces it, or appends the new
  suffix to a name that has none.
\<close>

definition rfind_dot :: "string \<Rightarrow> nat option" where
  "rfind_dot name =
     (let r = takeWhile (\<lambda>c. c \<noteq> CHR ''.'') (rev name)
      in if length r = length name then None else Some (length name - length r - 1))"

definition suffix :: "string \<Rightarrow> string" where
  "suffix name =
     (case rfind_dot name of
        None \<Rightarrow> []
      | Some i \<Rightarrow> if 0 < i \<and> i < length name - 1 then drop i name else [])"

definition with_suffix :: "string \<Rightarrow> string \<Rightarrow> string" where
  "with_suffix name new_suffix =
     (let old_suffix = suffix name
      in if old_suffix = [] then name @ new_suffix
         else take (length name - length old_suffix) name @ new_suffix)"

definition backup_path :: "string \<Rightarrow> string" where
  "backup_path file_path = with_suffix file_path ''.json.backup''"

text \<open>
  What \<^verbatim>\<open>open(file_path, "w")\<close> and \<^verbatim>\<open>json.dump\<close> do to the file: the text is
  written in full, or \<^verbatim>\<open>open\<close> raises and no file is created, or an exception
  comes after \<^verbatim>\<open>open\<close> has truncated the file and some text \<open>partial\<close> has
  reached it.
\<close>

datatype write_outcome = Written | OpenFailed | DumpFailed string

text \<open>The three steps around the write: the backup before it, the removal of the
  backup after it, and the restoration in the exception handler.\<close>

definition make_backup :: "files \<Rightarrow> string \<Rightarrow> files" where
  "make_backup fs file_path =
     (if path_exists fs file_path then rename fs file_path (backup_path file_path) else fs)"

definition remove_backup :: "files \<Rightarrow> string \<Rightarrow> files" where
  "remove_backup fs file_path =
     (if path_exists fs (backup_path file_path) then unlink fs (backup_path file_path) else fs)"

definition restore_backup :: "files \<Rightarrow> string \<Rightarrow> files" where
  "restore_backup fs file_path =
     (if path_exists fs (backup_path file_path)
      then rename fs (backup_path file_path) file_path else fs)"

text \<open>
  \<^verbatim>\<open>save_json\<close>, with the files before the call and the outcome \<open>w\<close> of the write;
  \<open>json_dumps\<close> is the text that \<^verbatim>\<open>json.dump(data, f, ensure_ascii=False, indent=2)\<close>
  produces. The result is the files after the call and the returned flag.
\<close>

definition save_json ::
  "(table \<Rightarrow> string) \<Rightarrow> files \<Rightarrow> string \<Rightarrow> table \<Rightarrow> bool \<Rightarrow> write_outcome \<Rightarrow> files \<times> bool" where
  "save_json json_dumps fs file_path data dry_run w =
     (if dry_run then (fs, True)
      else
        (let fs1 = make_backup fs file_path
         in case w of
              Written \<Rightarrow>
                (remove_backup (fs1(file_path \<mapsto> json_dumps data @ [CHR 0x0A])) file_path, True)
            | OpenFailed \<Rightarrow> (restore_backup fs1 file_path, False)
            | DumpFailed partial \<Rightarrow>
                (restore_backup (fs1(file_path \<mapsto> partial)) file_path, False)))"

section \<open>Facts about characters and the rewriting steps\<close>

lemma cp_underscore: "cp CHR ''_'' = 95"
  by (simp add: cp_def)

lemma cp_newline: "cp (CHR 0x0A) = 10"
  by (simp add: cp_def)

lemma re_09_not_underscore: "re_09 c \<Longrightarrow> c \<noteq> CHR ''_''"
  by (auto simp: re_09_def cp_underscore)

lemma re_09_not_az: "re_09 c \<Longrightarrow> \<not> re_az c"
  by (simp add: re_09_def re_az_def)

lemma re_09_not_isupper: "re_09 c \<Longrightarrow> \<not> isupper c"
  by (simp add: re_09_def isupper_def re_AZ_def)

lemma sub_cap_word_hd: "s \<noteq> [] \<Longrightarrow> sub_cap_word s \<noteq> [] \<and> hd (sub_cap_word s) = hd s"
  by (induction s rule: sub_cap_word.induct) auto

lemma sub_low_cap_hd: "s \<noteq> [] \<Longrightarrow> sub_low_cap s \<noteq> [] \<and> hd (sub_low_cap s) = hd s"
  by (induction s rule: sub_low_cap.induct) auto

lemma sub_underscores_hd: "s \<noteq> [] \<Longrightarrow> sub_underscores s \<noteq> [] \<and> hd (sub_underscores s) = hd s"
  by (induction s rule: sub_underscores.induct) auto

lemma lower_hd: "s \<noteq> [] \<Longrightarrow> lower s \<noteq> [] \<and> hd (lower s) = lower_char (hd s)"
  by (cases s) (auto simp: lower_def)

text \<open>Stripping leaves the first character alone when it is not one of the stripped
  ones.\<close>

lemma strip_by_hd:
  assumes "s \<noteq> []" and "\<not> p (hd s)"
  shows "strip_by p s \<noteq> [] \<and> hd (strip_by p s) = hd s"
proof -
  obtain c t where s: "s = c # t" using assms(1) by (cases s) auto
  with assms(2) have np: "\<not> p c" by simp
  have d: "dropWhile p s = s" using s np by simp
  have "dropWhile p (rev t @ [c]) = (if \<forall>x\<in>set (rev t). p x then [c] else dropWhile p (rev t) @ [c])"
    using np by (simp add: dropWhile_append)
  then have "\<exists>u. dropWhile p (rev s) = u @ [c]"
    using s by (cases "\<forall>x\<in>set (rev t). p x") auto
  then obtain u where "dropWhile p (rev s) = u @ [c]" by blast
  then have "strip_by p s = c # rev u" by (simp add: strip_by_def d)
  then show ?thesis using s by simp
qed

text \<open>A digit at the head of a key goes through all four steps of the suggestion.\<close>

lemma suggest_hd_digit:
  assumes "key \<noteq> []" and "re_09 (hd key)"
  shows "suggest_snake_case key \<noteq> [] \<and> hd (suggest_snake_case key) = hd key"
proof -
  let ?s1 = "sub_cap_word key"
  let ?s2 = "lower (sub_low_cap ?s1)"
  let ?s3 = "sub_underscores ?s2"
  have 1: "?s1 \<noteq> [] \<and> hd ?s1 = hd key" using assms(1) by (rule sub_cap_word_hd)
  then have 2: "sub_low_cap ?s1 \<noteq> [] \<and> hd (sub_low_cap ?s1) = hd key"
    using sub_low_cap_hd [of ?s1] by simp
  then have 3: "?s2 \<noteq> [] \<and> hd ?s2 = hd key"
    using lower_hd [of "sub_low_cap ?s1"] re_09_not_isupper [OF assms(2)]
    by (simp add: lower_char_def)
  then have 4: "?s3 \<noteq> [] \<and> hd ?s3 = hd key"
    using sub_underscores_hd [of ?s2] by simp
  have "\<not> (\<lambda>c. c = CHR ''_'') (hd ?s3)"
    using 4 re_09_not_underscore [OF assms(2)] by simp
  with 4 have "strip_by (\<lambda>c. c = CHR ''_'') ?s3 \<noteq> [] \<and> hd (strip_by (\<lambda>c. c = CHR ''_'') ?s3) = hd key"
    using strip_by_hd [of ?s3 "\<lambda>c. c = CHR ''_''"] by simp
  then show ?thesis by (simp add: suggest_snake_case_def Let_def)
qed

lemma validate_hd: "validate_snake_case key \<Longrightarrow> key \<noteq> [] \<and> re_az (hd key)"
  by (cases key) (auto simp: validate_snake_case_def)

section \<open>The claims\<close>

text \<open>
  C8. For all tables \<open>A\<close> and \<open>B\<close> the two components of
  \<^verbatim>\<open>find_missing_keys(A, B)\<close>, the keys missing in the target and the keys missing in
  the source, have no key in common.
\<close>

theorem diff_keys_disjoint:
  "fst (find_missing_keys A B) \<inter> snd (find_missing_keys A B) = {}"
  by (auto simp: find_missing_keys_def Let_def)

text \<open>
  C10. The suggestion for an invalid key need not be valid: the key \<^verbatim>\<open>123Abc\<close> fails
  the convention, its suggestion is \<^verbatim>\<open>123_abc\<close>, and that fails the convention too.
  In general a key that starts with a digit fails the convention and so does its
  suggestion, which starts with the same digit.
\<close>

theorem suggestion_not_always_valid:
  "suggest_snake_case ''123Abc'' = ''123_abc'' \<and>
   \<not> validate_snake_case ''123Abc'' \<and>
   \<not> validate_snake_case ''123_abc'' \<and>
   (\<forall>key. key \<noteq> [] \<longrightarrow> re_09 (hd key) \<longrightarrow>
      \<not> validate_snake_case key \<and> \<not> validate_snake_case (suggest_snake_case key))"
proof -
  have a: "suggest_snake_case ''123Abc'' = ''123_abc''" by code_simp
  have b: "\<not> validate_snake_case ''123Abc''" by code_simp
  have c: "\<not> validate_snake_case ''123_abc''" by code_simp
  have d: "\<not> validate_snake_case key \<and> \<not> validate_snake_case (suggest_snake_case key)"
    if "key \<noteq> []" "re_09 (hd key)" for key
    using that suggest_hd_digit [OF that] validate_hd [of key]
      validate_hd [of "suggest_snake_case key"] re_09_not_az [of "hd key"] by auto
  from a b c d show ?thesis by blast
qed

theorem suggestion_not_always_valid_witness:
  "''9Lives'' \<noteq> [] \<and> re_09 (hd ''9Lives'') \<and> suggest_snake_case ''9Lives'' = ''9_lives'' \<and>
   \<not> validate_snake_case ''9Lives'' \<and> \<not> validate_snake_case (suggest_snake_case ''9Lives'')"
proof -
  have h: "re_09 (hd ''9Lives'')" by code_simp
  have s: "suggest_snake_case ''9Lives'' = ''9_lives''" by code_simp
  from suggestion_not_always_valid h s show ?thesis by auto
qed

subsection \<open>Adding the missing keys\<close>

lemma keys_dict_set: "set (keys (dict_set d k v)) = insert k (set (keys d))"
  by (induction d k v rule: dict_set.induct) (auto simp: keys_def)

lemma dict_set_new: "k \<notin> set (keys d) \<Longrightarrow> dict_set d k v = d @ [(k, v)]"
  by (induction d k v rule: dict_set.induct) (auto simp: keys_def)

lemma keys_merge_missing: "set (keys (merge_missing ks d p)) = set (keys d) \<union> set ks"
  unfolding merge_missing_def
  by (induction ks arbitrary: d) (auto simp: keys_dict_set)

lemma merge_missing_append:
  "distinct ks \<Longrightarrow> set ks \<inter> set (keys d) = {} \<Longrightarrow>
     merge_missing ks d p = d @ map (\<lambda>k. (k, p)) ks"
  unfolding merge_missing_def
proof (induction ks arbitrary: d)
  case Nil
  then show ?case by simp
next
  case (Cons k ks)
  from Cons.prems have k: "k \<notin> set (keys d)" by auto
  have "set ks \<inter> set (keys (d @ [(k, p)])) = {}"
    using Cons.prems by (auto simp: keys_def)
  with Cons.IH [of "d @ [(k, p)]"] Cons.prems(1) show ?case
    by (simp add: dict_set_new [OF k])
qed

lemma missing_in_target_def':
  "fst (find_missing_keys r t) = {k \<in> set (keys r). k \<noteq> schema_key \<and> k \<notin> set (keys t)}"
  by (auto simp: find_missing_keys_def Let_def)

text \<open>
  C3. Adding the missing keys is idempotent. Let \<open>ks\<close> be the order in which the first
  run visits the keys of the reference that the target lacks, and \<open>ks'\<close> the order in
  which a second run visits the keys that the result of the first run lacks. Then no
  key of the reference is missing after the first run, and the second run returns the
  table of the first run unchanged, for every placeholder \<open>p\<close>.
\<close>

theorem merge_missing_idempotent:
  assumes "set ks = fst (find_missing_keys reference target)"
    and "set ks' = fst (find_missing_keys reference (merge_missing ks target p))"
  shows "fst (find_missing_keys reference (merge_missing ks target p)) = {} \<and>
         merge_missing ks' (merge_missing ks target p) p = merge_missing ks target p"
proof -
  have "fst (find_missing_keys reference (merge_missing ks target p)) = {}"
    using assms(1) by (auto simp: missing_in_target_def' keys_merge_missing)
  moreover from this assms(2) have "ks' = []" by simp
  ultimately show ?thesis by (simp add: merge_missing_def)
qed

theorem merge_missing_idempotent_witness:
  "set [''bye''] =
     fst (find_missing_keys [(''$schema'', ''x''), (''hello_world'', ''Hej''), (''bye'', ''Hej'')]
            [(''hello_world'', ''Hello'')]) \<and>
   merge_missing [''bye''] [(''hello_world'', ''Hello'')] ''[TODO]'' =
     [(''hello_world'', ''Hello''), (''bye'', ''[TODO]'')] \<and>
   set [] =
     fst (find_missing_keys [(''$schema'', ''x''), (''hello_world'', ''Hej''), (''bye'', ''Hej'')]
            (merge_missing [''bye''] [(''hello_world'', ''Hello'')] ''[TODO]'')) \<and>
   merge_missing [] (merge_missing [''bye''] [(''hello_world'', ''Hello'')] ''[TODO]'') ''[TODO]'' =
     [(''hello_world'', ''Hello''), (''bye'', ''[TODO]'')]"
proof -
  let ?r = "[(''$schema'', ''x''), (''hello_world'', ''Hej''), (''bye'', ''Hej'')]"
  let ?t = "[(''hello_world'', ''Hello'')]"
  have h1: "set [''bye''] = fst (find_missing_keys ?r ?t)"
    by (simp add: find_missing_keys_def keys_def schema_key_def)
  have m: "merge_missing [''bye''] ?t ''[TODO]'' = [(''hello_world'', ''Hello''), (''bye'', ''[TODO]'')]"
    by (simp add: merge_missing_def)
  have h2: "set [] = fst (find_missing_keys ?r (merge_missing [''bye''] ?t ''[TODO]''))"
    unfolding m by (simp add: find_missing_keys_def keys_def schema_key_def)
  from merge_missing_idempotent [OF h1 h2] h1 h2 m show ?thesis by simp
qed

text \<open>
  C6. Adding the missing keys never overwrites and never removes. The target is the
  initial segment of the result, so every key of the target keeps its place and its
  value and none is absent; every key of the reference that the target lacks is in
  the result with the placeholder as its value.
\<close>

theorem merge_missing_frame:
  assumes "set ks = fst (find_missing_keys reference target)" and "distinct ks"
  shows "take (length target) (merge_missing ks target p) = target \<and>
         (\<forall>k \<in> set (keys target). map_of (merge_missing ks target p) k = map_of target k) \<and>
         set (keys target) \<subseteq> set (keys (merge_missing ks target p)) \<and>
         (\<forall>k \<in> fst (find_missing_keys reference target).
            map_of (merge_missing ks target p) k = Some p)"
proof -
  have disj: "set ks \<inter> set (keys target) = {}"
    using assms(1) by (auto simp: missing_in_target_def')
  have eq: "merge_missing ks target p = target @ map (\<lambda>k. (k, p)) ks"
    using assms(2) disj by (rule merge_missing_append)
  have a: "take (length target) (merge_missing ks target p) = target"
    by (simp add: eq)
  have b: "map_of (merge_missing ks target p) k = map_of target k" if "k \<in> set (keys target)" for k
  proof -
    from that have "k \<in> dom (map_of target)" by (simp add: keys_def dom_map_of_conv_image_fst)
    then show ?thesis by (auto simp: eq map_add_def split: option.splits)
  qed
  have c: "set (keys target) \<subseteq> set (keys (merge_missing ks target p))"
    by (simp add: keys_merge_missing)
  have d: "map_of (merge_missing ks target p) k = Some p"
    if "k \<in> fst (find_missing_keys reference target)" for k
  proof -
    from that assms(1) have k: "k \<in> set ks" by simp
    with disj have "k \<notin> set (keys target)" by auto
    then have "map_of target k = None" by (simp add: keys_def map_of_eq_None_iff)
    moreover have "map_of (map (\<lambda>k. (k, p)) ks) k = Some p"
      using k by (induction ks) auto
    ultimately show ?thesis by (simp add: eq map_add_def)
  qed
  from a b c d show ?thesis by blast
qed

theorem merge_missing_frame_witness:
  "set [''bye''] =
     fst (find_missing_keys [(''$schema'', ''x''), (''hello_world'', ''Hej''), (''bye'', ''Hej'')]
            [(''hello_world'', ''Hello'')]) \<and> distinct [''bye''] \<and>
   map_of (merge_missing [''bye''] [(''hello_world'', ''Hello'')] ''[TODO]'') ''hello_world'' = Some ''Hello'' \<and>
   map_of (merge_missing [''bye''] [(''hello_world'', ''Hello'')] ''[TODO]'') ''bye'' = Some ''[TODO]''"
proof -
  let ?r = "[(''$schema'', ''x''), (''hello_world'', ''Hej''), (''bye'', ''Hej'')]"
  let ?t = "[(''hello_world'', ''Hello'')]"
  have h1: "set [''bye''] = fst (find_missing_keys ?r ?t)"
    by (simp add: find_missing_keys_def keys_def schema_key_def)
  have h2: "distinct [''bye'']" by simp
  have k: "''hello_world'' \<in> set (keys ?t)" by (simp add: keys_def)
  from merge_missing_frame [OF h1 h2, of "''[TODO]''"] h1 k show ?thesis
    by (metis h2 insertI1 list.simps(15) map_of_Cons_code(2))
qed

subsection \<open>Sorting the keys\<close>

lemma fold_dict_set_append:
  "distinct ks \<Longrightarrow> set ks \<inter> set (keys d) = {} \<Longrightarrow>
     fold (\<lambda>k acc. dict_set acc k (f k)) ks d = d @ map (\<lambda>k. (k, f k)) ks"
proof (induction ks arbitrary: d)
  case Nil
  then show ?case by simp
next
  case (Cons k ks)
  from Cons.prems have k: "k \<notin> set (keys d)" by auto
  have "set ks \<inter> set (keys (d @ [(k, f k)])) = {}"
    using Cons.prems by (auto simp: keys_def)
  with Cons.IH [of "d @ [(k, f k)]"] Cons.prems(1) show ?case
    by (simp add: dict_set_new [OF k])
qed

lemma other_keys_facts:
  "set (other_keys data) = set (keys data) - {schema_key}"
  "sorted (other_keys data)"
  "wf_table data \<Longrightarrow> distinct (other_keys data)"
  by (auto simp: other_keys_def wf_table_def)

lemma sort_keys_fold:
  "sort_keys_alphabetically data =
     fold (\<lambda>k acc. dict_set acc k (dict_get data k)) (other_keys data) (schema_entry data)"
  by (simp add: sort_keys_alphabetically_def schema_entry_def other_keys_def)

lemma sort_keys_shape:
  assumes "wf_table data"
  shows "sort_keys_alphabetically data =
           schema_entry data @ map (\<lambda>k. (k, dict_get data k)) (other_keys data)"
proof -
  have "set (other_keys data) \<inter> set (keys (schema_entry data)) = {}"
    by (auto simp: other_keys_facts(1) schema_entry_def keys_def)
  with other_keys_facts(3) [OF assms]
  have "fold (\<lambda>k acc. dict_set acc k (dict_get data k)) (other_keys data) (schema_entry data) =
          schema_entry data @ map (\<lambda>k. (k, dict_get data k)) (other_keys data)"
    by (rule fold_dict_set_append)
  then show ?thesis by (simp only: sort_keys_fold)
qed

lemma keys_sort_keys:
  assumes "wf_table data"
  shows "keys (sort_keys_alphabetically data) =
           (if schema_key \<in> set (keys data) then [schema_key] else []) @ other_keys data"
  by (simp add: sort_keys_shape [OF assms] schema_entry_def keys_def comp_def)

lemma map_of_sort_keys:
  assumes "wf_table data"
  shows "map_of (sort_keys_alphabetically data) k = map_of data k"
proof (cases "k \<in> set (keys data)")
  case False
  then have "k \<notin> set (keys (sort_keys_alphabetically data))"
    by (auto simp: keys_sort_keys [OF assms] other_keys_facts(1) split: if_splits)
  then have "map_of (sort_keys_alphabetically data) k = None"
    by (simp add: keys_def map_of_eq_None_iff)
  moreover from False have "map_of data k = None"
    by (simp add: keys_def map_of_eq_None_iff)
  ultimately show ?thesis by simp
next
  case True
  then have "map_of data k \<noteq> None" by (simp add: keys_def map_of_eq_None_iff)
  then obtain v where v: "map_of data k = Some v" by auto
  then have g: "dict_get data k = v" by (simp add: dict_get_def)
  show ?thesis
  proof (cases "k = schema_key")
    case True
    with \<open>k \<in> set (keys data)\<close> g v show ?thesis
      by (simp add: sort_keys_shape [OF assms] schema_entry_def)
  next
    case False
    with True have "k \<in> set (other_keys data)" by (simp add: other_keys_facts(1))
    then have "map_of (map (\<lambda>k. (k, dict_get data k)) (other_keys data)) k = Some (dict_get data k)"
      by (induction "other_keys data") (auto simp: map_of_map_restrict)
    with False g v show ?thesis
      by (simp add: sort_keys_shape [OF assms] schema_entry_def)
  qed
qed

lemma wf_sort_keys:
  assumes "wf_table data"
  shows "wf_table (sort_keys_alphabetically data)"
  using other_keys_facts(3) [OF assms]
  by (auto simp: wf_table_def keys_sort_keys [OF assms] other_keys_facts(1))

lemma dict_get_sort_keys:
  "wf_table data \<Longrightarrow> dict_get (sort_keys_alphabetically data) k = dict_get data k"
  by (simp add: dict_get_def map_of_sort_keys)

lemma other_keys_sort_keys:
  assumes "wf_table data"
  shows "other_keys (sort_keys_alphabetically data) = other_keys data"
proof -
  have "filter (\<lambda>k. k \<noteq> schema_key) (keys (sort_keys_alphabetically data)) = other_keys data"
    by (simp add: keys_sort_keys [OF assms] filter_id_conv other_keys_facts(1))
  then have "other_keys (sort_keys_alphabetically data) = sort (other_keys data)"
    by (simp add: other_keys_def)
  then show ?thesis by (simp add: sort_key_id_if_sorted other_keys_facts(2))
qed

lemma schema_entry_sort_keys:
  assumes "wf_table data"
  shows "schema_entry (sort_keys_alphabetically data) = schema_entry data"
proof -
  have "set (keys (sort_keys_alphabetically data)) = set (keys data)"
    by (auto simp: keys_sort_keys [OF assms] other_keys_facts(1))
  then show ?thesis by (simp add: schema_entry_def dict_get_sort_keys [OF assms])
qed

text \<open>
  C4. \<^verbatim>\<open>sort_keys_alphabetically\<close> is idempotent and keeps the table: for every
  table \<open>T\<close> (a dict, so its keys are distinct) sorting the sorted table changes
  nothing, the sorted table has the keys of \<open>T\<close>, every key has the value it has in
  \<open>T\<close>, the keys other than \<^verbatim>\<open>$schema\<close> come in ascending order (strings compared
  code point by code point), and \<^verbatim>\<open>$schema\<close>, when \<open>T\<close> has it, is the first key.
\<close>

theorem normalize_idempotent_keeps_keys:
  assumes "wf_table T"
  shows "sort_keys_alphabetically (sort_keys_alphabetically T) = sort_keys_alphabetically T \<and>
         set (keys (sort_keys_alphabetically T)) = set (keys T) \<and>
         (\<forall>k. map_of (sort_keys_alphabetically T) k = map_of T k) \<and>
         sorted (filter (\<lambda>k. k \<noteq> schema_key) (keys (sort_keys_alphabetically T))) \<and>
         (schema_key \<in> set (keys T) \<longrightarrow> hd (keys (sort_keys_alphabetically T)) = schema_key) \<and>
         wf_table (sort_keys_alphabetically T)"
proof -
  let ?N = "sort_keys_alphabetically T"
  have wf: "wf_table ?N" using assms by (rule wf_sort_keys)
  have "sort_keys_alphabetically ?N =
          schema_entry ?N @ map (\<lambda>k. (k, dict_get ?N k)) (other_keys ?N)"
    using wf by (rule sort_keys_shape)
  also have "\<dots> = schema_entry T @ map (\<lambda>k. (k, dict_get T k)) (other_keys T)"
    by (simp add: schema_entry_sort_keys [OF assms] other_keys_sort_keys [OF assms]
          dict_get_sort_keys [OF assms])
  also have "\<dots> = ?N" by (simp add: sort_keys_shape [OF assms])
  finally have a: "sort_keys_alphabetically ?N = ?N" .
  have b: "set (keys ?N) = set (keys T)"
    by (auto simp: keys_sort_keys [OF assms] other_keys_facts(1))
  have c: "\<forall>k. map_of ?N k = map_of T k"
    by (simp add: map_of_sort_keys [OF assms])
  have "filter (\<lambda>k. k \<noteq> schema_key) (keys ?N) = other_keys T"
    by (simp add: keys_sort_keys [OF assms] filter_id_conv other_keys_facts(1))
  then have d: "sorted (filter (\<lambda>k. k \<noteq> schema_key) (keys ?N))"
    by (simp add: other_keys_facts(2))
  have e: "schema_key \<in> set (keys T) \<longrightarrow> hd (keys ?N) = schema_key"
    by (simp add: keys_sort_keys [OF assms])
  from a b c d e wf show ?thesis by blast
qed

theorem normalize_idempotent_keeps_keys_witness:
  "wf_table [(''b'', ''1''), (''$schema'', ''x''), (''a'', ''2''), (''B'', ''3'')] \<and>
   sort_keys_alphabetically [(''b'', ''1''), (''$schema'', ''x''), (''a'', ''2''), (''B'', ''3'')] =
     [(''$schema'', ''x''), (''B'', ''3''), (''a'', ''2''), (''b'', ''1'')] \<and>
   sort_keys_alphabetically [(''$schema'', ''x''), (''B'', ''3''), (''a'', ''2''), (''b'', ''1'')] =
     [(''$schema'', ''x''), (''B'', ''3''), (''a'', ''2''), (''b'', ''1'')]"
proof -
  let ?T = "[(''b'', ''1''), (''$schema'', ''x''), (''a'', ''2''), (''B'', ''3'')]"
  have h: "wf_table ?T" by (simp add: wf_table_def keys_def)
  have v: "sort_keys_alphabetically ?T =
             [(''$schema'', ''x''), (''B'', ''3''), (''a'', ''2''), (''b'', ''1'')]"
    by code_simp
  from normalize_idempotent_keeps_keys [OF h] h v show ?thesis by simp
qed

subsection \<open>Naming violations\<close>

lemma validate_chars:
  assumes "validate_snake_case key"
  shows "\<forall>c \<in> set key. re_az09u c \<or> c = CHR 0x0A"
proof -
  from assms obtain c cs where key: "key = c # cs" and c: "re_az c"
    and rest: "dropWhile re_az09u cs = [] \<or> dropWhile re_az09u cs = [CHR 0x0A]"
    by (cases key) (auto simp: validate_snake_case_def Let_def)
  have "cs = takeWhile re_az09u cs @ dropWhile re_az09u cs" by simp
  then have "set cs = set (takeWhile re_az09u cs) \<union> set (dropWhile re_az09u cs)"
    by (metis set_append)
  moreover have "\<forall>x \<in> set (takeWhile re_az09u cs). re_az09u x"
    by (auto dest: set_takeWhileD)
  ultimately have "\<forall>x \<in> set cs. re_az09u x \<or> x = CHR 0x0A"
    using rest by auto
  with key c show ?thesis by (auto simp: re_az09u_def)
qed

lemma isupper_outside:
  assumes "isupper c"
  shows "\<not> re_az09u c \<and> c \<noteq> CHR 0x0A"
proof -
  from assms have r: "(65 \<le> cp c \<and> cp c \<le> 90) \<or> (192 \<le> cp c \<and> cp c \<le> 222)"
    by (auto simp: isupper_def re_AZ_def)
  then have "cp c \<noteq> 95" and "cp c \<noteq> 10" by auto
  then have "c \<noteq> CHR ''_''" and "c \<noteq> CHR 0x0A"
    using cp_underscore cp_newline by auto
  with r show ?thesis by (auto simp: re_az09u_def re_az_def re_09_def)
qed

lemma upper_invalid: "\<exists>c \<in> set key. isupper c \<Longrightarrow> \<not> validate_snake_case key"
  using validate_chars isupper_outside by blast

lemma schema_key_no_upper: "\<forall>c \<in> set schema_key. \<not> isupper c"
  by code_simp

lemma set_find_naming_violations:
  "set (find_naming_violations T) =
     {(k, suggest_snake_case k) | k. k \<in> set (keys T) \<and> k \<noteq> schema_key \<and> \<not> validate_snake_case k}"
  by (induction T rule: find_naming_violations.induct) (auto simp: keys_def)

text \<open>
  C7. For every table, a key that matches \<^verbatim>\<open>^[a-z][a-z0-9_]*$\<close> never appears among
  the violations of \<^verbatim>\<open>find_naming_violations\<close>, and a key of the table that contains
  a capital letter always appears there, paired with its suggestion.
\<close>

theorem naming_violations_sound_complete:
  "(validate_snake_case key \<longrightarrow> key \<notin> fst ` set (find_naming_violations T)) \<and>
   (key \<in> set (keys T) \<and> (\<exists>c \<in> set key. isupper c) \<longrightarrow>
      (key, suggest_snake_case key) \<in> set (find_naming_violations T))"
proof -
  have a: "key \<notin> fst ` set (find_naming_violations T)" if "validate_snake_case key"
    using that by (auto simp: set_find_naming_violations)
  have b: "(key, suggest_snake_case key) \<in> set (find_naming_violations T)"
    if "key \<in> set (keys T) \<and> (\<exists>c \<in> set key. isupper c)"
  proof -
    from that have "\<not> validate_snake_case key" by (simp add: upper_invalid)
    moreover from that schema_key_no_upper have "key \<noteq> schema_key" by blast
    ultimately show ?thesis using that by (simp add: set_find_naming_violations)
  qed
  from a b show ?thesis by blast
qed

theorem naming_violations_sound_complete_witness:
  "validate_snake_case ''bye'' \<and>
   ''bye'' \<notin> fst ` set (find_naming_violations
      [(''$schema'', ''x''), (''helloWorld'', ''Hej''), (''bye'', ''Hej'')]) \<and>
   ''helloWorld'' \<in> set (keys [(''$schema'', ''x''), (''helloWorld'', ''Hej''), (''bye'', ''Hej'')]) \<and>
   (\<exists>c \<in> set ''helloWorld''. isupper c) \<and>
   (''helloWorld'', ''hello_world'') \<in> set (find_naming_violations
      [(''$schema'', ''x''), (''helloWorld'', ''Hej''), (''bye'', ''Hej'')])"
proof -
  let ?T = "[(''$schema'', ''x''), (''helloWorld'', ''Hej''), (''bye'', ''Hej'')]"
  have v: "validate_snake_case ''bye''" by code_simp
  have k: "''helloWorld'' \<in> set (keys ?T)" by (simp add: keys_def)
  have u: "\<exists>c \<in> set ''helloWorld''. isupper c" by code_simp
  have s: "suggest_snake_case ''helloWorld'' = ''hello_world''" by code_simp
  from naming_violations_sound_complete [of "''bye''" ?T] v
  have 1: "''bye'' \<notin> fst ` set (find_naming_violations ?T)" by blast
  from naming_violations_sound_complete [of "''helloWorld''" ?T] k u
  have "(''helloWorld'', suggest_snake_case ''helloWorld'') \<in> set (find_naming_violations ?T)"
    by blast
  with s have 2: "(''helloWorld'', ''hello_world'') \<in> set (find_naming_violations ?T)" by simp
  from v 1 k u 2 show ?thesis by blast
qed



subsection \<open>Exit status of the report\<close>

text \<open>
  C1 as stated fails on \<^verbatim>\<open>i18n-sync.py\<close>: with the key \<^verbatim>\<open>helloWorld\<close> in both
  tables no key is missing and no value is duplicated, the only finding is the naming
  violation, and the report mode exits with status 1.
\<close>

theorem check_exit_naming_counterexample:
  "find_missing_keys [(''helloWorld'', ''Hej'')] [(''helloWorld'', ''Hello'')] = ({}, {}) \<and>
   find_duplicate_values [(''helloWorld'', ''Hej'')] = [] \<and>
   find_duplicate_values [(''helloWorld'', ''Hello'')] = [] \<and>
   find_naming_violations [(''helloWorld'', ''Hej'')] = [(''helloWorld'', ''hello_world'')] \<and>
   main_report \<lparr>check = True, add_keys = False, fix_flag = False, auto_fix = False\<rparr>
     (Some [(''helloWorld'', ''Hej'')]) (Some [(''helloWorld'', ''Hello'')]) = Some 1"
proof -
  have m: "find_missing_keys [(''helloWorld'', ''Hej'')] [(''helloWorld'', ''Hello'')] = ({}, {})"
    by (simp add: find_missing_keys_def keys_def schema_key_def)
  have d1: "find_duplicate_values [(''helloWorld'', ''Hej'')] = []" by code_simp
  have d2: "find_duplicate_values [(''helloWorld'', ''Hello'')] = []" by code_simp
  have v1: "find_naming_violations [(''helloWorld'', ''Hej'')] = [(''helloWorld'', ''hello_world'')]"
    by code_simp
  have v2: "find_naming_violations [(''helloWorld'', ''Hello'')] = [(''helloWorld'', ''hello_world'')]"
    by code_simp
  have "main_report \<lparr>check = True, add_keys = False, fix_flag = False, auto_fix = False\<rparr>
     (Some [(''helloWorld'', ''Hej'')]) (Some [(''helloWorld'', ''Hello'')]) = Some 1"
    by (simp add: main_report_def m d1 d2 v1 v2 del: find_naming_violations.simps)
  with m d1 d2 v1 show ?thesis by simp
qed

text \<open>
  C1, amended. In the report mode of \<^verbatim>\<open>i18n-sync.py\<close> (with \<^verbatim>\<open>--check\<close>, or with
  none of \<^verbatim>\<open>--add-keys\<close>, \<^verbatim>\<open>--fix\<close>, \<^verbatim>\<open>--auto-fix\<close>) duplicate values never
  affect the exit status, but naming violations do: for every pair of loaded tables
  the status is 1 exactly when a key is missing from either table or a key of either
  table violates the naming convention, and 0 otherwise. So a run whose only findings
  are groups of duplicate values exits with 0, and a run whose only findings are
  naming violations exits with 1.
\<close>

theorem check_exit_status:
  assumes "check fl \<or> \<not> (add_keys fl \<or> fix_flag fl \<or> auto_fix fl)"
  shows "main_report fl (Some sv_data) (Some en_data) =
           Some (if fst (find_missing_keys sv_data en_data) \<noteq> {} \<or>
                    snd (find_missing_keys sv_data en_data) \<noteq> {} \<or>
                    find_naming_violations sv_data \<noteq> [] \<or>
                    find_naming_violations en_data \<noteq> [] then 1 else 0)"
  using assms by (cases "find_missing_keys sv_data en_data") (simp add: main_report_def Let_def)

theorem check_exit_status_witness:
  "(check \<lparr>check = True, add_keys = False, fix_flag = False, auto_fix = False\<rparr> \<or>
    \<not> (add_keys \<lparr>check = True, add_keys = False, fix_flag = False, auto_fix = False\<rparr> \<or>
       fix_flag \<lparr>check = True, add_keys = False, fix_flag = False, auto_fix = False\<rparr> \<or>
       auto_fix \<lparr>check = True, add_keys = False, fix_flag = False, auto_fix = False\<rparr>)) \<and>
   find_duplicate_values [(''hello'', ''Hej''), (''bye'', ''Hej'')] = [(''Hej'', [''hello'', ''bye''])] \<and>
   main_report \<lparr>check = True, add_keys = False, fix_flag = False, auto_fix = False\<rparr>
     (Some [(''hello'', ''Hej''), (''bye'', ''Hej'')]) (Some [(''hello'', ''Hello''), (''bye'', ''Bye'')]) = Some 0 \<and>
   main_report \<lparr>check = True, add_keys = False, fix_flag = False, auto_fix = False\<rparr>
     (Some [(''hello'', ''Hej''), (''bye'', ''Hej'')]) (Some [(''hello'', ''Hello'')]) = Some 1"
proof -
  let ?fl = "\<lparr>check = True, add_keys = False, fix_flag = False, auto_fix = False\<rparr>"
  let ?sv = "[(''hello'', ''Hej''), (''bye'', ''Hej'')]"
  let ?en = "[(''hello'', ''Hello''), (''bye'', ''Bye'')]"
  let ?en1 = "[(''hello'', ''Hello'')]"
  have h: "check ?fl \<or> \<not> (add_keys ?fl \<or> fix_flag ?fl \<or> auto_fix ?fl)" by simp
  have d: "find_duplicate_values ?sv = [(''Hej'', [''hello'', ''bye''])]" by code_simp
  have m: "find_missing_keys ?sv ?en = ({}, {})"
    by (auto simp: find_missing_keys_def keys_def schema_key_def)
  have m1: "fst (find_missing_keys ?sv ?en1) \<noteq> {}"
    by (simp add: find_missing_keys_def keys_def schema_key_def)
  have v1: "find_naming_violations ?sv = []" by code_simp
  have v2: "find_naming_violations ?en = []" by code_simp
  have x: "main_report ?fl (Some ?sv) (Some ?en) = Some 0"
    using check_exit_status [OF h, of ?sv ?en] by (simp only: m v1 v2 fst_conv snd_conv) simp
  have y: "main_report ?fl (Some ?sv) (Some ?en1) = Some 1"
    using check_exit_status [OF h, of ?sv ?en1] m1 by (simp only: if_True simp_thms)
  from h d x y show ?thesis by blast
qed

subsection \<open>Duplicate values\<close>

lemma keys_dd_append:
  "set (keys (dd_append d v k)) = insert v (set (keys d))"
  by (induction d v k rule: dd_append.induct) (auto simp: keys_def)

lemma distinct_dd_append:
  "distinct (keys d) \<Longrightarrow> distinct (keys (dd_append d v k))"
proof (induction d v k rule: dd_append.induct)
  case (1 "value" key)
  then show ?case by (simp add: keys_def)
next
  case (2 v ks d "value" key)
  have "set (keys (dd_append d value key)) = insert value (set (keys d))"
    by (rule keys_dd_append)
  with 2 show ?case by (auto simp: keys_def)
qed

lemma group_of_dd_append:
  "group_of (dd_append d v k) v' = (if v' = v then group_of d v @ [k] else group_of d v')"
  by (induction d v k rule: dd_append.induct) (auto simp: group_of_def)

lemma keys_with_Cons:
  "keys_with ((k, v') # data) v =
     (if k \<noteq> schema_key \<and> v' = v then k # keys_with data v else keys_with data v)"
  by (simp add: keys_with_def)

lemma group_values_step:
  "group_values ((key, value) # items) acc =
     (if key = schema_key \<or> skipped value then group_values items acc
      else group_values items (dd_append acc value key))"
  by (auto simp: skipped_def)

lemma distinct_group_values:
  "distinct (keys acc) \<Longrightarrow> distinct (keys (group_values items acc))"
proof (induction items arbitrary: acc)
  case Nil
  then show ?case by simp
next
  case (Cons kv items)
  obtain key "value" where kv: "kv = (key, value)" by (cases kv)
  show ?case unfolding kv group_values_step
    using Cons by (simp add: distinct_dd_append)
qed

lemma group_of_group_values:
  "group_of (group_values items acc) v =
     group_of acc v @ (if skipped v then [] else keys_with items v)"
proof (induction items arbitrary: acc)
  case Nil
  then show ?case by (simp add: keys_with_def)
next
  case (Cons kv items)
  obtain key "value" where kv: "kv = (key, value)" by (cases kv)
  show ?case unfolding kv group_values_step
    by (auto simp: Cons.IH group_of_dd_append keys_with_Cons)
qed

lemma keys_group_values:
  "set (keys (group_values items acc)) =
     set (keys acc) \<union> {v. \<not> skipped v \<and> keys_with items v \<noteq> []}"
proof (induction items arbitrary: acc)
  case Nil
  then show ?case by (simp add: keys_with_def)
next
  case (Cons kv items)
  obtain key "value" where kv: "kv = (key, value)" by (cases kv)
  show ?case unfolding kv group_values_step
    by (auto simp: Cons.IH keys_dd_append keys_with_Cons)
qed

lemma filter_key_distinct:
  "distinct (keys d) \<Longrightarrow> (v, ks) \<in> set d \<Longrightarrow> filter (\<lambda>(v', ks'). v' = v) d = [(v, ks)]"
proof (induction d)
  case Nil
  then show ?case by simp
next
  case (Cons p d)
  obtain v' ks' where p: "p = (v', ks')" by (cases p)
  show ?case
  proof (cases "v' = v")
    case True
    with Cons.prems p have "v \<notin> fst ` set d" by (simp add: keys_def)
    then have "filter (\<lambda>(v', ks'). v' = v) d = []"
      by (auto simp: filter_empty_conv image_iff)
    moreover from True Cons.prems p \<open>v \<notin> fst ` set d\<close> have "ks' = ks"
      by (auto simp: image_iff)
    ultimately show ?thesis using True p by simp
  next
    case False
    with Cons p show ?thesis by (auto simp: keys_def)
  qed
qed

lemma group_of_mem:
  "distinct (keys d) \<Longrightarrow> (v, ks) \<in> set d \<Longrightarrow> group_of d v = ks"
  by (simp add: group_of_def keys_def)

lemma str_in_iff: "str_in sub s \<longleftrightarrow> (\<exists>p q. s = p @ sub @ q)"
proof (induction s)
  case Nil
  then show ?case by auto
next
  case (Cons c s)
  have "(take (length sub) (c # s) = sub) \<longleftrightarrow> (\<exists>q. c # s = sub @ q)"
    by (metis append_eq_conv_conj)
  moreover have "(\<exists>p q. c # s = p @ sub @ q) \<longleftrightarrow> (\<exists>q. c # s = sub @ q) \<or> (\<exists>p q. s = p @ sub @ q)"
  proof
    assume "\<exists>p q. c # s = p @ sub @ q"
    then obtain p q where e: "c # s = p @ sub @ q" by blast
    show "(\<exists>q. c # s = sub @ q) \<or> (\<exists>p q. s = p @ sub @ q)"
    proof (cases p)
      case Nil
      with e show ?thesis by auto
    next
      case (Cons a p')
      with e have "s = p' @ sub @ q" by simp
      then show ?thesis by blast
    qed
  next
    assume "(\<exists>q. c # s = sub @ q) \<or> (\<exists>p q. s = p @ sub @ q)"
    then show "\<exists>p q. c # s = p @ sub @ q"
    proof
      assume "\<exists>q. c # s = sub @ q"
      then obtain q where "c # s = [] @ sub @ q" by auto
      then show ?thesis by blast
    next
      assume "\<exists>p q. s = p @ sub @ q"
      then obtain p q where "c # s = (c # p) @ sub @ q" by auto
      then show ?thesis by blast
    qed
  qed
  ultimately show ?case using Cons.IH by simp
qed

lemma bracket_todo: "str_in ''[TODO'' v \<Longrightarrow> str_in ''TODO'' v"
proof -
  assume "str_in ''[TODO'' v"
  then obtain p q where "v = p @ ''[TODO'' @ q" unfolding str_in_iff by blast
  then have "v = (p @ ''['') @ ''TODO'' @ q" by simp
  then show ?thesis unfolding str_in_iff by blast
qed

lemma length_strip_le: "length (strip v) \<le> length v"
proof -
  have "length (dropWhile isspace (rev (dropWhile isspace v))) \<le> length (rev (dropWhile isspace v))"
    by (rule length_dropWhile_le)
  also have "\<dots> \<le> length v" by (simp add: length_dropWhile_le)
  finally show ?thesis by (simp add: strip_def strip_by_def)
qed

lemma skipped_iff: "skipped v \<longleftrightarrow> length (strip v) \<le> 1 \<or> str_in ''TODO'' v"
proof -
  have "v = [] \<Longrightarrow> length (strip v) \<le> 1" using length_strip_le [of v] by simp
  then show ?thesis unfolding skipped_def using bracket_todo by auto
qed

lemma keys_with_facts:
  "set (keys_with T v) = {k. (k, v) \<in> set T \<and> k \<noteq> schema_key}"
  "wf_table T \<Longrightarrow> distinct (keys_with T v)"
proof -
  show "set (keys_with T v) = {k. (k, v) \<in> set T \<and> k \<noteq> schema_key}"
    by (auto simp: keys_with_def image_iff)
  show "distinct (keys_with T v)" if "wf_table T"
    using that unfolding keys_with_def wf_table_def keys_def by (rule distinct_map_filter)
qed

text \<open>
  C2, amended. For every table \<open>T\<close> and value \<open>v\<close>, let \<open>keys_with T v\<close> be the
  keys other than \<^verbatim>\<open>$schema\<close> that have the value \<open>v\<close>, in table order. When there
  are two or more of them, \<open>v\<close> has more than one character left after
  \<^verbatim>\<open>strip()\<close> and \<open>v\<close> does not contain \<^verbatim>\<open>TODO\<close>, then
  \<^verbatim>\<open>find_duplicate_values\<close> reports \<open>v\<close> in exactly one group, and the group is
  \<open>keys_with T v\<close>. In every other case \<open>v\<close> is not reported; in particular a value
  of length at most 1 is never reported.
\<close>

theorem find_duplicates_groups:
  assumes "wf_table T"
  shows "distinct (keys_with T v) \<and>
         set (keys_with T v) = {k. (k, v) \<in> set T \<and> k \<noteq> schema_key} \<and>
         (if 2 \<le> length (keys_with T v) \<and> 1 < length (strip v) \<and> \<not> str_in ''TODO'' v
          then filter (\<lambda>(v', ks). v' = v) (find_duplicate_values T) = [(v, keys_with T v)]
          else v \<notin> fst ` set (find_duplicate_values T)) \<and>
         (length v \<le> 1 \<longrightarrow> v \<notin> fst ` set (find_duplicate_values T))"
proof -
  let ?G = "group_values T []"
  let ?K = "keys_with T v"
  have dG: "distinct (keys ?G)" by (rule distinct_group_values) (simp add: keys_def)
  have gG: "group_of ?G v = (if skipped v then [] else ?K)"
  proof -
    have "group_of ([] :: (string \<times> string list) list) v = []" by (simp add: group_of_def)
    then show ?thesis by (simp add: group_of_group_values)
  qed
  have kG: "v \<in> set (keys ?G) \<longleftrightarrow> \<not> skipped v \<and> ?K \<noteq> []"
    unfolding keys_group_values by (simp add: keys_def)
  have mem: "ks = ?K \<and> \<not> skipped v" if "(v, ks) \<in> set ?G" for ks
  proof -
    from that have "v \<in> set (keys ?G)" by (force simp: keys_def)
    with kG have "\<not> skipped v" by simp
    moreover from dG that have "group_of ?G v = ks" by (rule group_of_mem)
    ultimately show ?thesis using gG by simp
  qed
  have yes: "filter (\<lambda>(v', ks). v' = v) (find_duplicate_values T) = [(v, ?K)]"
    if "2 \<le> length ?K" "\<not> skipped v"
  proof -
    from that have "v \<in> set (keys ?G)" using kG by auto
    then obtain ks where ks: "(v, ks) \<in> set ?G" by (auto simp: keys_def)
    with mem have "ks = ?K" by simp
    with ks dG have "filter (\<lambda>(v', ks'). v' = v) ?G = [(v, ?K)]"
      using filter_key_distinct by fastforce
    moreover have "filter (\<lambda>(v', ks). v' = v) (find_duplicate_values T) =
                     filter (\<lambda>(value, ks). length ks > 1) (filter (\<lambda>(v', ks'). v' = v) ?G)"
      unfolding find_duplicate_values_def filter_filter by (rule filter_cong) auto
    ultimately show ?thesis using that(1) by simp
  qed
  have no: "v \<notin> fst ` set (find_duplicate_values T)" if "\<not> (2 \<le> length ?K \<and> \<not> skipped v)"
  proof
    assume "v \<in> fst ` set (find_duplicate_values T)"
    then obtain ks where "(v, ks) \<in> set ?G" and "length ks > 1"
      by (auto simp: find_duplicate_values_def)
    with mem that show False by auto
  qed
  have sk: "\<not> skipped v \<longleftrightarrow> 1 < length (strip v) \<and> \<not> str_in ''TODO'' v"
    by (auto simp: skipped_iff)
  have short: "v \<notin> fst ` set (find_duplicate_values T)" if "length v \<le> 1"
  proof -
    from that length_strip_le [of v] have "skipped v" by (simp add: skipped_iff)
    then show ?thesis using no by simp
  qed
  from yes no sk short keys_with_facts(1) [of T v] keys_with_facts(2) [OF assms, of v]
  show ?thesis by auto
qed

text \<open>
  C2 as stated fails: the value \<^verbatim>\<open>" x "\<close> has length 3, contains no \<^verbatim>\<open>TODO\<close>
  and belongs to the two keys \<^verbatim>\<open>a\<close> and \<^verbatim>\<open>b\<close>, and it is not reported, because
  the length test is made on the stripped value.
\<close>

theorem find_duplicates_stripped_counterexample:
  "wf_table [(''a'', '' x ''), (''b'', '' x '')] \<and> ''a'' \<noteq> ''b'' \<and>
   1 < length '' x '' \<and> \<not> str_in ''TODO'' '' x '' \<and>
   find_duplicate_values [(''a'', '' x ''), (''b'', '' x '')] = []"
proof -
  have w: "wf_table [(''a'', '' x ''), (''b'', '' x '')]" by (simp add: wf_table_def keys_def)
  have t: "\<not> str_in ''TODO'' '' x ''" by code_simp
  have f: "find_duplicate_values [(''a'', '' x ''), (''b'', '' x '')] = []" by code_simp
  from w t f show ?thesis by simp
qed

theorem find_duplicates_groups_witness:
  "wf_table [(''$schema'', ''x''), (''hello_world'', ''Hej''), (''bye'', ''Hej'')] \<and>
   keys_with [(''$schema'', ''x''), (''hello_world'', ''Hej''), (''bye'', ''Hej'')] ''Hej'' =
     [''hello_world'', ''bye''] \<and>
   filter (\<lambda>(v', ks). v' = ''Hej'')
     (find_duplicate_values [(''$schema'', ''x''), (''hello_world'', ''Hej''), (''bye'', ''Hej'')]) =
     [(''Hej'', [''hello_world'', ''bye''])] \<and>
   ''x'' \<notin> fst ` set (find_duplicate_values
     [(''$schema'', ''x''), (''hello_world'', ''Hej''), (''bye'', ''Hej'')])"
proof -
  let ?T = "[(''$schema'', ''x''), (''hello_world'', ''Hej''), (''bye'', ''Hej'')]"
  have w: "wf_table ?T" by (simp add: wf_table_def keys_def)
  have k: "keys_with ?T ''Hej'' = [''hello_world'', ''bye'']" by code_simp
  have s: "1 < length (strip ''Hej'')" by code_simp
  have t: "\<not> str_in ''TODO'' ''Hej''" by code_simp
  from find_duplicates_groups [OF w, of "''Hej''"] k s t
  have 1: "filter (\<lambda>(v', ks). v' = ''Hej'') (find_duplicate_values ?T) =
             [(''Hej'', [''hello_world'', ''bye''])]" by simp
  from find_duplicates_groups [OF w, of "''x''"]
  have 2: "''x'' \<notin> fst ` set (find_duplicate_values ?T)" by simp
  from w k 1 2 show ?thesis by blast
qed

subsection \<open>Saving with a backup\<close>

text \<open>The backup never has the name of the file itself: a suffix has one dot, the
  backup suffix has two.\<close>

lemma suffix_shape:
  assumes "suffix name \<noteq> []"
  shows "\<exists>r. suffix name = CHR ''.'' # r \<and> CHR ''.'' \<notin> set r \<and>
             name = take (length name - length (suffix name)) name @ suffix name"
proof -
  let ?P = "\<lambda>c. c \<noteq> CHR ''.''"
  let ?r = "takeWhile ?P (rev name)"
  let ?d = "dropWhile ?P (rev name)"
  from assms have len: "length ?r \<noteq> length name"
    by (auto simp: suffix_def rfind_dot_def Let_def split: if_splits)
  with assms have suf: "suffix name = drop (length name - length ?r - 1) name"
    by (auto simp: suffix_def rfind_dot_def Let_def split: if_splits)
  have split: "rev name = ?r @ ?d" by simp
  have "?d \<noteq> []"
  proof
    assume "?d = []"
    with split have "rev name = ?r" by simp
    then have "length name = length ?r" by (metis length_rev)
    with len show False by simp
  qed
  then obtain x rest where d: "?d = x # rest" by (cases ?d) auto
  have "\<not> ?P (hd ?d)" using \<open>?d \<noteq> []\<close> by (rule hd_dropWhile)
  with d have x: "x = CHR ''.''" by simp
  from split d x have "rev name = ?r @ CHR ''.'' # rest" by simp
  then have "rev (rev name) = rev (?r @ CHR ''.'' # rest)" by simp
  then have name: "name = rev rest @ CHR ''.'' # rev ?r" by simp
  then have "length name = length rest + 1 + length ?r"
    by (metis length_append length_rev length_Cons Suc_eq_plus1 add.assoc add.commute)
  then have i: "length name - length ?r - 1 = length rest" by simp
  have "drop (length rest) name = CHR ''.'' # rev ?r"
    by (subst name) simp
  with suf i have s: "suffix name = CHR ''.'' # rev ?r" by simp
  have nodot: "CHR ''.'' \<notin> set (rev ?r)" by (auto dest: set_takeWhileD)
  have "name = take (length name - length (suffix name)) name @ suffix name"
    by (simp add: suf)
  with s nodot show ?thesis by blast
qed

lemma backup_path_differs: "backup_path file_path \<noteq> file_path"
proof (cases "suffix file_path = []")
  case True
  then show ?thesis by (simp add: backup_path_def with_suffix_def)
next
  case False
  then obtain r where r: "suffix file_path = CHR ''.'' # r" "CHR ''.'' \<notin> set r"
    and n: "file_path = take (length file_path - length (suffix file_path)) file_path @ suffix file_path"
    using suffix_shape by blast
  let ?pre = "take (length file_path - length (suffix file_path)) file_path"
  have b: "backup_path file_path = ?pre @ ''.json.backup''"
    using False by (simp add: backup_path_def with_suffix_def)
  show ?thesis
  proof
    assume "backup_path file_path = file_path"
    with b n have "?pre @ ''.json.backup'' = ?pre @ suffix file_path" by simp
    then have "suffix file_path = ''.json.backup''" by simp
    with r have "r = ''json.backup''" by simp
    with r(2) show False by simp
  qed
qed

text \<open>
  C5. A save of a table whose file exists cannot leave the file truncated or half
  written. The old text is first kept under the backup name. Whatever the write does
  when it fails (\<^verbatim>\<open>open\<close> raising, or an exception after part of the text has been
  written), \<^verbatim>\<open>save_json\<close> returns \<^verbatim>\<open>False\<close>, the file has its old text again and
  the backup is gone. When the write succeeds, \<^verbatim>\<open>save_json\<close> returns \<^verbatim>\<open>True\<close>, the
  file has the new text and the backup is deleted. No other file changes, and a dry
  run changes nothing.
\<close>

theorem save_json_atomic:
  assumes "fs file_path = Some old"
  shows "make_backup fs file_path (backup_path file_path) = Some old \<and>
         (w \<noteq> Written \<longrightarrow>
            snd (save_json json_dumps fs file_path data False w) = False \<and>
            fst (save_json json_dumps fs file_path data False w) file_path = Some old \<and>
            fst (save_json json_dumps fs file_path data False w) (backup_path file_path) = None) \<and>
         (w = Written \<longrightarrow>
            snd (save_json json_dumps fs file_path data False w) = True \<and>
            fst (save_json json_dumps fs file_path data False w) file_path =
              Some (json_dumps data @ [CHR 0x0A]) \<and>
            fst (save_json json_dumps fs file_path data False w) (backup_path file_path) = None) \<and>
         (\<forall>p. p \<noteq> file_path \<and> p \<noteq> backup_path file_path \<longrightarrow>
            fst (save_json json_dumps fs file_path data False w) p = fs p) \<and>
         save_json json_dumps fs file_path data True w = (fs, True)"
proof -
  note ne = backup_path_differs [of file_path]
  have ne': "file_path \<noteq> backup_path file_path" using ne by simp
  have m: "make_backup fs file_path = (fs(backup_path file_path := Some old))(file_path := None)"
    using assms ne by (simp add: make_backup_def path_exists_def rename_def)
  show ?thesis
  proof (cases w)
    case Written
    then show ?thesis using ne ne'
      by (simp add: save_json_def m remove_backup_def path_exists_def unlink_def)
  next
    case OpenFailed
    then show ?thesis using ne ne'
      by (simp add: save_json_def m restore_backup_def path_exists_def rename_def)
  next
    case (DumpFailed partial)
    then show ?thesis using ne ne'
      by (simp add: save_json_def m restore_backup_def path_exists_def rename_def)
  qed
qed


theorem save_json_atomic_witness:
  "(Map.empty(''sv.json'' \<mapsto> ''{}'')) ''sv.json'' = Some ''{}'' \<and>
   backup_path ''sv.json'' = ''sv.json.backup'' \<and>
   make_backup (Map.empty(''sv.json'' \<mapsto> ''{}'')) ''sv.json'' ''sv.json.backup'' = Some ''{}'' \<and>
   save_json (\<lambda>d. ''{ ... }'') (Map.empty(''sv.json'' \<mapsto> ''{}'')) ''sv.json''
       [(''bye'', ''[TODO]'')] False (DumpFailed ''{ .'') =
     (Map.empty(''sv.json'' \<mapsto> ''{}''), False) \<and>
   fst (save_json (\<lambda>d. ''{ ... }'') (Map.empty(''sv.json'' \<mapsto> ''{}'')) ''sv.json''
       [(''bye'', ''[TODO]'')] False Written) ''sv.json'' = Some ''{ ... }\<newline>''"
proof -
  let ?fs = "Map.empty(''sv.json'' \<mapsto> ''{}'')"
  let ?S = "\<lambda>w. save_json (\<lambda>d. ''{ ... }'') ?fs ''sv.json'' [(''bye'', ''[TODO]'')] False w"
  have h: "?fs ''sv.json'' = Some ''{}''" by simp
  have b: "backup_path ''sv.json'' = ''sv.json.backup''" by code_simp
  note t = save_json_atomic [of ?fs "''sv.json''" "''{}''" _ "\<lambda>d. ''{ ... }''"
      "[(''bye'', ''[TODO]'')]", OF h]
  have f: "?S (DumpFailed ''{ .'') = (?fs, False)"
  proof -
    have "fst (?S (DumpFailed ''{ .'')) p = ?fs p" for p
      using t [of "DumpFailed ''{ .''"] by (cases "p = ''sv.json''"; cases "p = backup_path ''sv.json''") auto
    then have "fst (?S (DumpFailed ''{ .'')) = ?fs" by (rule ext)
    moreover have "snd (?S (DumpFailed ''{ .'')) = False"
      using t [of "DumpFailed ''{ .''"] by simp
    ultimately show ?thesis by (simp add: prod_eq_iff)
  qed
  have w: "fst (?S Written) ''sv.json'' = Some ''{ ... }\<newline>''"
    using t [of Written] by simp
  have m: "make_backup ?fs ''sv.json'' ''sv.json.backup'' = Some ''{}''"
    using t [of Written] b by simp
  from h b m f w show ?thesis by blast
qed


subsection \<open>Usage scan\<close>






end
